theory Spec2Isabelle
  imports Main "HOL-Library.AList"
begin

section \<open>The dependency tracker of coalib.core.DependencyTracker\<close>

text \<open>
  A \<open>DependencyTracker\<close> object has one field, \<open>_dependency_dict\<close>: a Python dict from a
  dependency to the set of its dependants. The dict is modelled as an association list in
  insertion order (Python dicts iterate in insertion order), the sets as HOL sets. The
  tracker is identified with this field. A Python dict never holds a key twice; the
  corresponding property of the list is \<open>distinct (map fst D)\<close>.

  The builtin operations that can raise are modelled with their failure: subscripting and
  \<open>del\<close> raise \<open>KeyError\<close> on a missing key.
\<close>

datatype 'a error = KeyError 'a | CircularDependencyError 'a

type_synonym 'a tracker = "('a \<times> 'a set) list"

definition init :: "'a tracker" where
  "init = []"

definition dict_getitem :: "'a tracker \<Rightarrow> 'a \<Rightarrow> 'a error + 'a set" where
  "dict_getitem D k = (case map_of D k of None \<Rightarrow> Inl (KeyError k) | Some s \<Rightarrow> Inr s)"

definition dict_get :: "'a tracker \<Rightarrow> 'a \<Rightarrow> 'a set \<Rightarrow> 'a set" where
  "dict_get D k dflt = (case map_of D k of None \<Rightarrow> dflt | Some s \<Rightarrow> s)"

definition dict_delitem :: "'a tracker \<Rightarrow> 'a \<Rightarrow> 'a error + 'a tracker" where
  "dict_delitem D k =
     (if k \<in> fst ` set D then Inr (AList.delete k D) else Inl (KeyError k))"

definition dict_pop :: "'a tracker \<Rightarrow> 'a \<Rightarrow> 'a set \<Rightarrow> 'a set \<times> 'a tracker" where
  "dict_pop D k dflt =
     (case map_of D k of None \<Rightarrow> (dflt, D) | Some s \<Rightarrow> (s, AList.delete k D))"

subsection \<open>add\<close>

text \<open>
  \<^verbatim>\<open>
  if dependency not in self._dependency_dict:
      self._dependency_dict[dependency] = set()
  self._dependency_dict[dependency].add(dependant)
  \<close>
  \<open>AList.update\<close> replaces the value of a key that is present, in place, and appends a
  new key at the end, as a dict assignment does.
\<close>

definition add :: "'a \<Rightarrow> 'a \<Rightarrow> 'a tracker \<Rightarrow> 'a error + 'a tracker" where
  "add dependency dependant D =
     (let D1 = (if dependency \<notin> fst ` set D then AList.update dependency {} D else D)
      in case dict_getitem D1 dependency of
           Inl e \<Rightarrow> Inl e
         | Inr dependants \<Rightarrow>
             Inr (AList.update dependency (insert dependant dependants) D1))"

subsection \<open>resolve\<close>

text \<open>
  The first loop visits every item of the dict once. It removes \<open>dependency\<close> from the
  dependant-set of the item when it is a member (the set is changed in place, the dict keeps
  its keys), and collects the key when the set is empty afterwards.
\<close>

definition purge :: "'a \<Rightarrow> 'a tracker \<Rightarrow> 'a tracker" where
  "purge dependency D =
     map (\<lambda>(tracked_dependency, dependants).
            (tracked_dependency,
             if dependency \<in> dependants then dependants - {dependency} else dependants)) D"

definition dependencies_to_remove :: "'a \<Rightarrow> 'a tracker \<Rightarrow> 'a list" where
  "dependencies_to_remove dependency D =
     map fst (filter (\<lambda>(tracked_dependency, dependants).
                        dependency \<in> dependants \<and> dependants - {dependency} = {}) D)"

text \<open>The second loop: \<^verbatim>\<open>del self._dependency_dict[tracked_dependency]\<close> for each collected key.\<close>

fun delete_all :: "'a list \<Rightarrow> 'a tracker \<Rightarrow> 'a error + 'a tracker" where
  "delete_all [] D = Inr D"
| "delete_all (k # ks) D =
     (case dict_delitem D k of Inl e \<Rightarrow> Inl e | Inr D' \<Rightarrow> delete_all ks D')"

text \<open>
  The third loop puts a possibly freed dependant into \<open>non_free_dependants\<close> when some
  value of the dict contains it.
\<close>

definition non_free_dependants :: "'a set \<Rightarrow> 'a tracker \<Rightarrow> 'a set" where
  "non_free_dependants possible_freed_dependants D =
     {p \<in> possible_freed_dependants. \<exists>dependants \<in> snd ` set D. p \<in> dependants}"

definition resolve :: "'a \<Rightarrow> 'a tracker \<Rightarrow> 'a error + ('a set \<times> 'a tracker)" where
  "resolve dependency D =
     (case delete_all (dependencies_to_remove dependency D) (purge dependency D) of
        Inl e \<Rightarrow> Inl e
      | Inr D2 \<Rightarrow>
          (let (possible_freed_dependants, D3) = dict_pop D2 dependency {}
           in Inr (possible_freed_dependants
                     - non_free_dependants possible_freed_dependants D3, D3)))"

subsection \<open>all_dependencies_resolved\<close>

definition all_dependencies_resolved :: "'a tracker \<Rightarrow> bool" where
  "all_dependencies_resolved D = (length D = 0)"

subsection \<open>check_circular_dependencies\<close>

text \<open>
  Modelled from the spec: \<open>traverse_graph\<close> of \<open>coalib.core.Graphs\<close>, which
  \<open>check_circular_dependencies\<close> calls and which is not among the sources. The spec (4.2)
  describes a depth-first walk from every root over a neighbour-lookup function, with the
  nodes on the current path and the fully processed nodes; meeting a node that is on the
  current path fails at once with the repeated node; a fully processed node is not walked
  again, from this root or another.

  The walk need not end on an arbitrary neighbour function, so \<open>visit\<close> is a partial
  function: \<open>None\<close> stands for a walk that does not return. \<open>visit_all\<close> walks the
  nodes of a list in turn, handing the processed set on, and stops at the first failure.
\<close>

fun visit_all :: "('s \<Rightarrow> 'a \<Rightarrow> ('e + 's) option) \<Rightarrow> 's \<Rightarrow> 'a list \<Rightarrow> ('e + 's) option" where
  \<comment> \<open>Modelled from the spec: the loop over the roots, and over the neighbours of a node.\<close>
  "visit_all f s [] = Some (Inr s)"
| "visit_all f s (x # xs) =
     Option.bind (f s x) (\<lambda>r. case r of Inl e \<Rightarrow> Some (Inl e) | Inr s' \<Rightarrow> visit_all f s' xs)"

lemma visit_all_mono [partial_function_mono]:
  assumes "\<And>s x. mono_option (\<lambda>f. F f s x)"
  shows "mono_option (\<lambda>f. visit_all (F f) s xs)"
proof (induction xs arbitrary: s)
  case Nil
  show ?case by (simp add: option.const_mono)
next
  case (Cons x xs)
  have "mono_option (\<lambda>f. case r of Inl e \<Rightarrow> Some (Inl e) | Inr s' \<Rightarrow> visit_all (F f) s' xs)" for r
    by (cases r) (simp_all add: option.const_mono Cons)
  then show ?case
    unfolding visit_all.simps by (intro bind_mono assms)
qed

partial_function (option) visit ::
  "('a \<Rightarrow> 'a list) \<Rightarrow> 'a set \<Rightarrow> 'a set \<Rightarrow> 'a \<Rightarrow> ('a error + 'a set) option" where
  \<comment> \<open>Modelled from the spec: the walk from one node (spec 4.2).\<close>
  "visit get_successive_nodes path visited node =
     (if node \<in> path then Some (Inl (CircularDependencyError node))
      else if node \<in> visited then Some (Inr visited)
      else Option.bind
             (visit_all (visit get_successive_nodes (insert node path)) visited
                (get_successive_nodes node))
             (\<lambda>r. case r of Inl e \<Rightarrow> Some (Inl e) | Inr visited' \<Rightarrow> Some (Inr (insert node visited'))))"

declare visit.simps [code]

definition traverse_graph :: "'a list \<Rightarrow> ('a \<Rightarrow> 'a list) \<Rightarrow> ('a error + unit) option" where
  \<comment> \<open>Modelled from the spec: \<open>traverse_graph\<close> of \<open>coalib.core.Graphs\<close> (spec 4.2).\<close>
  "traverse_graph start_nodes get_successive_nodes =
     Option.bind (visit_all (visit get_successive_nodes {}) {} start_nodes)
       (\<lambda>r. case r of Inl e \<Rightarrow> Some (Inl e) | Inr visited \<Rightarrow> Some (Inr ()))"

text \<open>
  \<^verbatim>\<open>
  traverse_graph(
      self._dependency_dict.keys(),
      lambda node: self._dependency_dict.get(node, frozenset()))
  \<close>
  The order in which Python iterates over a set is not specified; \<open>iter\<close> stands for it,
  and the properties below hold for every \<open>iter\<close> that lists the members of each finite set.
\<close>

definition check_circular_dependencies ::
  "('a set \<Rightarrow> 'a list) \<Rightarrow> 'a tracker \<Rightarrow> ('a error + unit) option" where
  "check_circular_dependencies iter D =
     traverse_graph (map fst D) (\<lambda>node. iter (dict_get D node {}))"

subsection \<open>Sequences of calls\<close>

datatype 'a call = Add 'a 'a | Resolve 'a

fun run_call :: "'a call \<Rightarrow> 'a tracker \<Rightarrow> 'a error + 'a tracker" where
  "run_call (Add dependency dependant) D = add dependency dependant D"
| "run_call (Resolve dependency) D =
     (case resolve dependency D of Inl e \<Rightarrow> Inl e | Inr (freed, D') \<Rightarrow> Inr D')"

fun run_calls :: "'a call list \<Rightarrow> 'a tracker \<Rightarrow> 'a error + 'a tracker" where
  "run_calls [] D = Inr D"
| "run_calls (c # cs) D = (case run_call c D of Inl e \<Rightarrow> Inl e | Inr D' \<Rightarrow> run_calls cs D')"

section \<open>Abstractions used in the statements and proofs\<close>

text \<open>
  The closed forms of what \<open>resolve\<close> leaves and returns on a dict with distinct keys
  (proved equal to the result of \<open>resolve\<close> in \<open>resolve_eq\<close>), the edge set of a
  tracker, the invariant of the trackers reachable by calls from a fresh one, and the
  registered pairs of a call sequence that no later \<open>resolve\<close> has touched.
\<close>

definition remaining :: "'a \<Rightarrow> 'a tracker \<Rightarrow> 'a tracker" where
  "remaining d D = map (\<lambda>(k, s). (k, s - {d})) (filter (\<lambda>(k, s). k \<noteq> d \<and> s \<noteq> {d}) D)"

definition freed :: "'a \<Rightarrow> 'a tracker \<Rightarrow> 'a set" where
  "freed d D = {t \<in> dict_get D d {} - {d}. \<forall>(k, s) \<in> set D. k \<noteq> d \<longrightarrow> t \<notin> s}"

definition edges :: "'a tracker \<Rightarrow> ('a \<times> 'a) set" where
  "edges D = {(k, t). \<exists>s. (k, s) \<in> set D \<and> t \<in> s}"

definition tracker_inv :: "'a tracker \<Rightarrow> bool" where
  "tracker_inv D \<longleftrightarrow> distinct (map fst D) \<and> (\<forall>s \<in> snd ` set D. s \<noteq> {})"

definition unresolved :: "'a call list \<Rightarrow> ('a \<times> 'a) set" where
  "unresolved cs = {(d, t). \<exists>pre post. cs = pre @ Add d t # post \<and>
                      Resolve d \<notin> set post \<and> Resolve t \<notin> set post}"

text \<open>
  For the walk: the edges of a neighbour function, the invariant of the set of processed
  nodes (closed under the edges, disjoint from the current path, no member on a cycle) and
  the specification of a walk that starts with the processed set \<open>vis\<close> and has to process
  the nodes \<open>new\<close>.
\<close>

definition succ_edges :: "('a \<Rightarrow> 'a list) \<Rightarrow> ('a \<times> 'a) set" where
  "succ_edges g = {(n, m). m \<in> set (g n)}"

definition visit_inv :: "('a \<Rightarrow> 'a list) \<Rightarrow> 'a set \<Rightarrow> 'a set \<Rightarrow> bool" where
  "visit_inv g path vis \<longleftrightarrow>
     (\<forall>n \<in> vis. set (g n) \<subseteq> vis) \<and> vis \<inter> path = {} \<and>
     (\<forall>n \<in> vis. (n, n) \<notin> (succ_edges g)\<^sup>+)"

definition visit_post ::
  "('a \<Rightarrow> 'a list) \<Rightarrow> 'a set \<Rightarrow> 'a set \<Rightarrow> 'a set \<Rightarrow> ('a error + 'a set) option \<Rightarrow> bool" where
  "visit_post g path vis new res \<longleftrightarrow>
     (\<exists>r. res = Some r \<and>
        (case r of
           Inl e \<Rightarrow> \<exists>c. e = CircularDependencyError c \<and> (c, c) \<in> (succ_edges g)\<^sup>+
         | Inr vis' \<Rightarrow> visit_inv g path vis' \<and> vis \<subseteq> vis' \<and> new \<subseteq> vis'))"

section \<open>Properties of add\<close>

lemma map_of_update_same: "map_of (AList.update k v D) k = Some v"
  by (simp add: update_conv')

lemma add_result:
  "add d t D = Inr (AList.update d (insert t (dict_get D d {})) D)"
proof (cases "d \<in> fst ` set D")
  case True
  then obtain s where s: "map_of D d = Some s"
    by (metis domD dom_map_of_conv_image_fst)
  with True show ?thesis
    by (simp add: add_def dict_getitem_def dict_get_def)
next
  case False
  then have "map_of D d = None"
    by (simp add: map_of_eq_None_iff)
  with False show ?thesis
    by (simp add: add_def dict_getitem_def dict_get_def map_of_update_same)
qed

text \<open>
  C7: \<open>add\<close> never raises, whatever the pair (a self-loop \<open>add d d\<close> and a pair that closes
  a cycle included), and a second \<open>add\<close> of the same pair leaves the dict as the first
  call left it.
\<close>

theorem add_idempotent_no_error:
  "(\<exists>D1. add d t D = Inr D1 \<and> add d t D1 = Inr D1) \<and> (\<exists>D2. add d d D = Inr D2)"
proof -
  let ?D1 = "AList.update d (insert t (dict_get D d {})) D"
  have 1: "add d t D = Inr ?D1" by (rule add_result)
  have "dict_get ?D1 d {} = insert t (dict_get D d {})"
    by (simp add: dict_get_def map_of_update_same)
  then have 2: "add d t ?D1 = Inr ?D1"
    by (simp add: add_result)
  have 3: "\<exists>D2. add d d D = Inr D2" by (simp add: add_result)
  from 1 2 3 show ?thesis by blast
qed

section \<open>What resolve computes\<close>

lemma delete_all_eq:
  "distinct ks \<Longrightarrow> set ks \<subseteq> fst ` set D \<Longrightarrow>
   delete_all ks D = Inr (filter (\<lambda>(k, s). k \<notin> set ks) D)"
proof (induction ks arbitrary: D)
  case Nil
  then show ?case by simp
next
  case (Cons k ks)
  have del: "AList.delete k D = filter (\<lambda>(k', s). k' \<noteq> k) D"
    by (auto simp: AList.delete_eq intro: filter_cong)
  have sub: "set ks \<subseteq> fst ` set (AList.delete k D)"
    using Cons.prems by (force simp: del)
  have "delete_all ks (AList.delete k D) = Inr (filter (\<lambda>(k, s). k \<notin> set ks) (AList.delete k D))"
    using Cons.IH [OF _ sub] Cons.prems(1) by simp
  moreover have "filter (\<lambda>(k, s). k \<notin> set ks) (AList.delete k D)
      = filter (\<lambda>(k', s). k' \<notin> set (k # ks)) D"
    by (auto simp: del intro: filter_cong)
  ultimately show ?case
    using Cons.prems(2) by (simp add: dict_delitem_def)
qed

lemma map_fst_map_snd: "map fst (map (\<lambda>(k, s). (k, g k s)) xs) = map fst xs"
  by (induction xs) auto

lemma purge_eq: "purge d D = map (\<lambda>(k, s). (k, s - {d})) D"
  unfolding purge_def by (rule map_cong) (auto split: if_splits)

lemma to_remove_eq: "dependencies_to_remove d D = map fst (filter (\<lambda>(k, s). s = {d}) D)"
  unfolding dependencies_to_remove_def
  by (rule arg_cong [where f = "map fst"], rule filter_cong) auto

lemma to_remove_mem:
  assumes "distinct (map fst D)" "(k, s) \<in> set D"
  shows "k \<in> set (dependencies_to_remove d D) \<longleftrightarrow> s = {d}"
proof
  assume "k \<in> set (dependencies_to_remove d D)"
  then have "(k, {d}) \<in> set D" by (auto simp: to_remove_eq)
  with assms show "s = {d}" by (meson eq_key_imp_eq_value)
next
  assume "s = {d}"
  with assms(2) show "k \<in> set (dependencies_to_remove d D)"
    by (force simp: to_remove_eq)
qed

lemma after_delete_all:
  assumes "distinct (map fst D)"
  shows "delete_all (dependencies_to_remove d D) (purge d D)
         = Inr (map (\<lambda>(k, s). (k, s - {d})) (filter (\<lambda>(k, s). s \<noteq> {d}) D))"
proof -
  have 1: "distinct (dependencies_to_remove d D)"
    using assms by (simp add: to_remove_eq distinct_map_filter)
  have 2: "set (dependencies_to_remove d D) \<subseteq> fst ` set (purge d D)"
    by (force simp: to_remove_eq purge_eq)
  have 3: "filter (\<lambda>(k, s). k \<notin> set (dependencies_to_remove d D)) (purge d D)
       = map (\<lambda>(k, s). (k, s - {d})) (filter (\<lambda>(k, s). s \<noteq> {d}) D)"
    unfolding purge_eq filter_map
    by (rule arg_cong [where f = "map _"], rule filter_cong)
       (auto simp: to_remove_mem [OF assms])
  show ?thesis
    using delete_all_eq [OF 1 2] 3 by simp
qed

lemma distinct_remaining: "distinct (map fst D) \<Longrightarrow> distinct (map fst (remaining d D))"
proof -
  have "map fst (remaining d D) = map fst (filter (\<lambda>(k, s). k \<noteq> d \<and> s \<noteq> {d}) D)"
    unfolding remaining_def by (rule map_fst_map_snd)
  then show "distinct (map fst D) \<Longrightarrow> distinct (map fst (remaining d D))"
    by (simp only: distinct_map_filter)
qed

lemma resolve_eq:
  assumes "distinct (map fst D)"
  shows "resolve d D = Inr (freed d D, remaining d D)"
proof -
  let ?f = "\<lambda>(k, s). (k, s - {d})"
  let ?D2 = "map ?f (filter (\<lambda>(k, s). s \<noteq> {d}) D)"
  have dist2: "distinct (map fst ?D2)"
  proof -
    have "map fst ?D2 = map fst (filter (\<lambda>(k, s). s \<noteq> {d}) D)"
      by (rule map_fst_map_snd)
    then show ?thesis using assms by (simp only: distinct_map_filter)
  qed
  have del: "AList.delete d ?D2 = remaining d D"
    unfolding AList.delete_eq remaining_def filter_map filter_filter
    by (rule arg_cong [where f = "map _"], rule filter_cong) auto
  have poss: "(case map_of ?D2 d of None \<Rightarrow> {} | Some s \<Rightarrow> s) = dict_get D d {} - {d}"
  proof (cases "map_of D d")
    case None
    then have "d \<notin> fst ` set D" by (simp add: map_of_eq_None_iff)
    then have "d \<notin> fst ` set ?D2" by force
    then have "map_of ?D2 d = None" by (simp add: map_of_eq_None_iff)
    with None show ?thesis by (simp add: dict_get_def)
  next
    case (Some s)
    then have mem: "(d, s) \<in> set D" by (rule map_of_SomeD)
    show ?thesis
    proof (cases "s = {d}")
      case True
      have "d \<notin> fst ` set ?D2"
      proof
        assume "d \<in> fst ` set ?D2"
        then have "\<exists>s'. (d, s') \<in> set D \<and> s' \<noteq> {d}" by force
        then obtain s' where "(d, s') \<in> set D" "s' \<noteq> {d}" by blast
        with mem assms True show False by (meson eq_key_imp_eq_value)
      qed
      then have "map_of ?D2 d = None" by (simp add: map_of_eq_None_iff)
      with Some True show ?thesis by (simp add: dict_get_def)
    next
      case False
      with mem have "(d, s - {d}) \<in> set ?D2" by force
      with dist2 have "map_of ?D2 d = Some (s - {d})" by simp
      with Some show ?thesis by (simp add: dict_get_def)
    qed
  qed
  have fr: "(dict_get D d {} - {d}) - non_free_dependants (dict_get D d {} - {d}) (remaining d D)
      = freed d D"
    unfolding freed_def non_free_dependants_def remaining_def
    by (auto 4 4 simp: image_iff split: prod.splits)
  have pop: "dict_pop ?D2 d {} = (dict_get D d {} - {d}, remaining d D)"
  proof (cases "map_of ?D2 d")
    case None
    then have "d \<notin> fst ` set ?D2" by (simp add: map_of_eq_None_iff)
    then have "AList.delete d ?D2 = ?D2" by (simp add: delete_id)
    with None poss del show ?thesis by (simp add: dict_pop_def)
  next
    case (Some s)
    with poss del show ?thesis by (simp add: dict_pop_def)
  qed
  show ?thesis
    unfolding resolve_def after_delete_all [OF assms] using pop fr by simp
qed

section \<open>Edges and the invariant of reachable trackers\<close>

lemma edges_remaining: "edges (remaining d D) = {(k, t) \<in> edges D. k \<noteq> d \<and> t \<noteq> d}"
  unfolding edges_def remaining_def by force

lemma inv_remaining: "tracker_inv D \<Longrightarrow> tracker_inv (remaining d D)"
  unfolding tracker_inv_def
proof (intro conjI ballI)
  assume a: "distinct (map fst D) \<and> (\<forall>s\<in>snd ` set D. s \<noteq> {})"
  then show "distinct (map fst (remaining d D))" by (simp add: distinct_remaining)
  fix s' assume "s' \<in> snd ` set (remaining d D)"
  then have "\<exists>k s. (k, s) \<in> set D \<and> s \<noteq> {d} \<and> s' = s - {d}"
    by (force simp: remaining_def)
  then obtain k s where "(k, s) \<in> set D" "s \<noteq> {d}" "s' = s - {d}"
    by blast
  moreover from this a have "s \<noteq> {}" by force
  ultimately show "s' \<noteq> {}" by auto
qed

lemma edges_update:
  assumes "distinct (map fst D)"
  shows "edges (AList.update d (insert t (dict_get D d {})) D) = insert (d, t) (edges D)"
proof -
  let ?D1 = "AList.update d (insert t (dict_get D d {})) D"
  have d1: "distinct (map fst ?D1)" using assms by (rule distinct_update)
  have "edges ?D1 = {(k, x). \<exists>s. map_of ?D1 k = Some s \<and> x \<in> s}"
    unfolding edges_def using d1 by simp
  also have "\<dots> = insert (d, t) {(k, x). \<exists>s. map_of D k = Some s \<and> x \<in> s}"
    by (auto simp: update_conv' dict_get_def split: if_splits option.splits)
  also have "{(k, x). \<exists>s. map_of D k = Some s \<and> x \<in> s} = edges D"
    unfolding edges_def using assms by simp
  finally show ?thesis .
qed

lemma inv_update:
  assumes "tracker_inv D"
  shows "tracker_inv (AList.update d (insert t (dict_get D d {})) D)"
proof -
  let ?D1 = "AList.update d (insert t (dict_get D d {})) D"
  from assms have dist: "distinct (map fst D)" by (simp add: tracker_inv_def)
  then have d1: "distinct (map fst ?D1)" by (rule distinct_update)
  have "s \<noteq> {}" if "s \<in> snd ` set ?D1" for s
  proof -
    from that obtain k where "(k, s) \<in> set ?D1" by auto
    with d1 have "map_of ?D1 k = Some s" by simp
    then have "s = insert t (dict_get D d {}) \<or> map_of D k = Some s"
      by (auto simp: update_conv' split: if_splits)
    then show ?thesis
    proof
      assume "map_of D k = Some s"
      then have "(k, s) \<in> set D" by (rule map_of_SomeD)
      with assms show ?thesis by (force simp: tracker_inv_def)
    qed auto
  qed
  with d1 show ?thesis by (simp add: tracker_inv_def)
qed

lemma keys_edges: "tracker_inv D \<Longrightarrow> fst ` set D = fst ` edges D"
  unfolding tracker_inv_def edges_def by (force simp: image_iff)

lemma inv_init: "tracker_inv init"
  by (simp add: tracker_inv_def init_def)

lemma run_call_inv:
  assumes "tracker_inv D"
  shows "\<exists>D'. run_call c D = Inr D' \<and> tracker_inv D' \<and>
     edges D' = (case c of Add d t \<Rightarrow> insert (d, t) (edges D)
                 | Resolve x \<Rightarrow> {(k, t) \<in> edges D. k \<noteq> x \<and> t \<noteq> x})"
proof (cases c)
  case (Add d t)
  from assms have "distinct (map fst D)" by (simp add: tracker_inv_def)
  with Add assms show ?thesis
    by (simp add: add_result inv_update edges_update)
next
  case (Resolve x)
  from assms have "distinct (map fst D)" by (simp add: tracker_inv_def)
  with Resolve assms show ?thesis
    by (simp add: resolve_eq inv_remaining edges_remaining)
qed

lemma unresolved_Cons_Add:
  "unresolved (Add a b # cs) =
     (if Resolve a \<notin> set cs \<and> Resolve b \<notin> set cs then {(a, b)} else {}) \<union> unresolved cs"
  unfolding unresolved_def
  by (auto simp: Cons_eq_append_conv)

lemma unresolved_Cons_Resolve: "unresolved (Resolve x # cs) = unresolved cs"
  unfolding unresolved_def
  by (auto simp: Cons_eq_append_conv)

lemma run_calls_inv:
  "tracker_inv D \<Longrightarrow>
   \<exists>D'. run_calls cs D = Inr D' \<and> tracker_inv D' \<and>
     edges D' = {(d, t) \<in> edges D. Resolve d \<notin> set cs \<and> Resolve t \<notin> set cs} \<union> unresolved cs"
proof (induction cs arbitrary: D)
  case Nil
  then show ?case by (simp add: unresolved_def)
next
  case (Cons c cs)
  from run_call_inv [OF Cons.prems, of c] obtain D1 where
    D1: "run_call c D = Inr D1" "tracker_inv D1"
    "edges D1 = (case c of Add d t \<Rightarrow> insert (d, t) (edges D)
                 | Resolve x \<Rightarrow> {(k, t) \<in> edges D. k \<noteq> x \<and> t \<noteq> x})" by blast
  from Cons.IH [OF D1(2)] obtain D' where
    D': "run_calls cs D1 = Inr D'" "tracker_inv D'"
    "edges D' = {(d, t) \<in> edges D1. Resolve d \<notin> set cs \<and> Resolve t \<notin> set cs} \<union> unresolved cs"
    by blast
  have "edges D' = {(d, t) \<in> edges D. Resolve d \<notin> set (c # cs) \<and> Resolve t \<notin> set (c # cs)}
          \<union> unresolved (c # cs)"
  proof (cases c)
    case (Add a b)
    show ?thesis unfolding D'(3) D1(3) Add unresolved_Cons_Add by auto
  next
    case (Resolve x)
    show ?thesis unfolding D'(3) D1(3) Resolve unresolved_Cons_Resolve by auto
  qed
  with D1(1) D'(1,2) show ?case by simp
qed

section \<open>Properties of a single resolve\<close>

text \<open>
  C1 (amended): for a dependency \<open>d\<close> whose entry holds the dependants \<open>S\<close>,
  \<open>resolve d\<close> returns exactly the members of \<open>S\<close> other than \<open>d\<close> itself that occur in
  no dependant-set of the dict left by the call, that is, under no other key once \<open>d\<close>
  is purged.
\<close>

theorem resolve_returns_freed:
  assumes "distinct (map fst D)" and "map_of D d = Some S"
  shows "\<exists>F D'. resolve d D = Inr (F, D') \<and>
           F = {t \<in> S - {d}. \<forall>s \<in> snd ` set D'. t \<notin> s} \<and>
           F = {t \<in> S - {d}. \<forall>(k, s) \<in> set D. k \<noteq> d \<longrightarrow> t \<notin> s - {d}}"
proof -
  have get: "dict_get D d {} = S" using assms(2) by (simp add: dict_get_def)
  have 1: "freed d D = {t \<in> S - {d}. \<forall>s \<in> snd ` set (remaining d D). t \<notin> s}"
    unfolding freed_def remaining_def get by (auto 4 4 simp: image_iff)
  have 2: "freed d D = {t \<in> S - {d}. \<forall>(k, s) \<in> set D. k \<noteq> d \<longrightarrow> t \<notin> s - {d}}"
    unfolding freed_def get by auto
  from resolve_eq [OF assms(1), of d] 1 2 show ?thesis by blast
qed

text \<open>The theorem of C1 at the dict \<open>{0: {1, 2}, 2: {3}, 4: {1}}\<close>.\<close>

theorem resolve_returns_freed_witness:
  "distinct (map fst [(0::nat, {1::nat, 2}), (2, {3}), (4, {1})]) \<and>
   map_of [(0::nat, {1::nat, 2}), (2, {3}), (4, {1})] 0 = Some {1::nat, 2} \<and>
   (\<exists>F D'. resolve 0 [(0::nat, {1::nat, 2}), (2, {3}), (4, {1})] = Inr (F, D') \<and>
           F = {t \<in> {1, 2} - {0}. \<forall>s \<in> snd ` set D'. t \<notin> s} \<and>
           F = {t \<in> {1, 2} - {0}.
                  \<forall>(k, s) \<in> set [(0::nat, {1::nat, 2}), (2, {3}), (4, {1})]. k \<noteq> 0 \<longrightarrow> t \<notin> s - {0}})"
proof -
  have h1: "distinct (map fst [(0::nat, {1::nat, 2}), (2, {3}), (4, {1})])" by simp
  have h2: "map_of [(0::nat, {1::nat, 2}), (2, {3}), (4, {1})] 0 = Some {1::nat, 2}" by simp
  from resolve_returns_freed [OF h1 h2] h1 h2 show ?thesis by blast
qed

text \<open>
  C1 as stated fails on a self-loop: in \<open>{0: {0}}\<close> the entry of \<open>0\<close> holds \<open>0\<close>, which
  occurs under no key of the dict left by the call, and yet \<open>resolve 0\<close> returns the empty set.
\<close>

theorem resolve_self_loop_counterexample:
  "map_of [(0::nat, {0::nat})] 0 = Some {0} \<and>
   resolve 0 [(0::nat, {0::nat})] = Inr ({}, []) \<and>
   {t \<in> {0::nat}. \<forall>s \<in> snd ` set ([] :: nat tracker). t \<notin> s} \<noteq> {}"
  by (simp add: resolve_eq freed_def remaining_def dict_get_def)

text \<open>
  C2: after \<open>resolve d\<close>, \<open>d\<close> is no key and no member of a dependant-set, a key whose
  set the purge emptied is gone, and every other entry is kept with \<open>d\<close> removed.
\<close>

theorem resolve_purges:
  assumes "distinct (map fst D)"
  shows "\<exists>F D'. resolve d D = Inr (F, D') \<and>
           d \<notin> fst ` set D' \<and>
           (\<forall>s \<in> snd ` set D'. d \<notin> s) \<and>
           (\<forall>(k, s) \<in> set D. d \<in> s \<and> s - {d} = {} \<longrightarrow> k \<notin> fst ` set D') \<and>
           (\<forall>(k, s) \<in> set D. k \<noteq> d \<and> s - {d} \<noteq> {} \<longrightarrow> (k, s - {d}) \<in> set D')"
proof -
  have 1: "d \<notin> fst ` set (remaining d D)"
    unfolding remaining_def by force
  have 2: "\<forall>s \<in> snd ` set (remaining d D). d \<notin> s"
    unfolding remaining_def by force
  have dropped: "k \<notin> fst ` set (remaining d D)" if a: "(k, s) \<in> set D" "d \<in> s" "s - {d} = {}" for k s
  proof
    assume "k \<in> fst ` set (remaining d D)"
    then have "\<exists>s0. (k, s0) \<in> set D \<and> s0 \<noteq> {d}" unfolding remaining_def by force
    then obtain s0 where "(k, s0) \<in> set D" "s0 \<noteq> {d}" by blast
    with a(1) assms have "s \<noteq> {d}" by (meson eq_key_imp_eq_value)
    with a(2,3) show False by auto
  qed
  have 3: "\<forall>(k, s) \<in> set D. d \<in> s \<and> s - {d} = {} \<longrightarrow> k \<notin> fst ` set (remaining d D)"
    using dropped by blast
  have 4: "\<forall>(k, s) \<in> set D. k \<noteq> d \<and> s - {d} \<noteq> {} \<longrightarrow> (k, s - {d}) \<in> set (remaining d D)"
    unfolding remaining_def by force
  from resolve_eq [OF assms, of d] 1 2 3 4 show ?thesis by blast
qed

text \<open>The theorem of C2 at the dict \<open>{0: {1, 2}, 3: {0}, 4: {0, 1}}\<close>.\<close>

theorem resolve_purges_witness:
  "distinct (map fst [(0::nat, {1::nat, 2}), (3, {0}), (4, {0, 1})]) \<and>
   (\<exists>F D'. resolve 0 [(0::nat, {1::nat, 2}), (3, {0}), (4, {0, 1})] = Inr (F, D') \<and>
           0 \<notin> fst ` set D' \<and>
           (\<forall>s \<in> snd ` set D'. 0 \<notin> s) \<and>
           (\<forall>(k, s) \<in> set [(0::nat, {1::nat, 2}), (3, {0}), (4, {0, 1})].
               0 \<in> s \<and> s - {0} = {} \<longrightarrow> k \<notin> fst ` set D') \<and>
           (\<forall>(k, s) \<in> set [(0::nat, {1::nat, 2}), (3, {0}), (4, {0, 1})].
               k \<noteq> 0 \<and> s - {0} \<noteq> {} \<longrightarrow> (k, s - {0}) \<in> set D'))"
proof -
  have h: "distinct (map fst [(0::nat, {1::nat, 2}), (3, {0}), (4, {0, 1})])" by simp
  from resolve_purges [OF h] h show ?thesis by blast
qed

lemma freed_absent: "d \<notin> fst ` set D \<Longrightarrow> freed d D = {}"
  by (simp add: freed_def dict_get_def map_of_eq_None_iff [THEN iffD2])

lemma remaining_absent:
  assumes "d \<notin> fst ` set D" and "\<forall>s \<in> snd ` set D. d \<notin> s"
  shows "remaining d D = D"
proof -
  have "filter (\<lambda>(k, s). k \<noteq> d \<and> s \<noteq> {d}) D = D"
    using assms by (intro filter_True) force
  moreover have "map (\<lambda>(k, s). (k, s - {d})) D = D"
    using assms(2) by (intro map_idI) force
  ultimately show ?thesis by (simp add: remaining_def)
qed

lemma absent_remaining:
  assumes "d \<notin> fst ` set D" and "\<forall>s \<in> snd ` set D. d \<notin> s"
  shows "d \<notin> fst ` set (remaining x D) \<and> (\<forall>s \<in> snd ` set (remaining x D). d \<notin> s)"
  using assms unfolding remaining_def by force

lemma resolves_keep_absent:
  assumes "distinct (map fst D)" and "d \<notin> fst ` set D" and "\<forall>s \<in> snd ` set D. d \<notin> s"
  shows "\<exists>D'. run_calls (map Resolve xs) D = Inr D' \<and> distinct (map fst D') \<and>
           d \<notin> fst ` set D' \<and> (\<forall>s \<in> snd ` set D'. d \<notin> s)"
  using assms
proof (induction xs arbitrary: D)
  case Nil
  then show ?case by simp
next
  case (Cons x xs)
  have 1: "run_call (Resolve x) D = Inr (remaining x D)"
    using Cons.prems(1) by (simp add: resolve_eq)
  have 2: "distinct (map fst (remaining x D))"
    using Cons.prems(1) by (rule distinct_remaining)
  from absent_remaining [OF Cons.prems(2,3), of x]
  have 3: "d \<notin> fst ` set (remaining x D)" and 4: "\<forall>s \<in> snd ` set (remaining x D). d \<notin> s"
    by simp_all
  from Cons.IH [OF 2 3 4] 1 show ?case by simp
qed

text \<open>
  C6: a second \<open>resolve d\<close> does not raise, returns the empty set and leaves the dict as
  it is, right after the first call and also after any further \<open>resolve\<close> calls in between
  (no \<open>add\<close> in between).
\<close>

theorem resolve_twice:
  assumes "distinct (map fst D)"
  shows "\<exists>F D' D''. resolve d D = Inr (F, D') \<and> resolve d D' = Inr ({}, D') \<and>
           run_calls (map Resolve xs) D' = Inr D'' \<and> resolve d D'' = Inr ({}, D'')"
proof -
  have abs: "d \<notin> fst ` set (remaining d D)" "\<forall>s \<in> snd ` set (remaining d D). d \<notin> s"
    unfolding remaining_def by force+
  have dist: "distinct (map fst (remaining d D))"
    using assms by (rule distinct_remaining)
  have again: "resolve d E = Inr ({}, E)"
    if "distinct (map fst E)" "d \<notin> fst ` set E" "\<forall>s \<in> snd ` set E. d \<notin> s" for E
    using resolve_eq [OF that(1), of d] freed_absent [OF that(2)] remaining_absent [OF that(2,3)]
    by simp
  from resolves_keep_absent [OF dist abs, of xs] obtain D'' where
    D'': "run_calls (map Resolve xs) (remaining d D) = Inr D''" "distinct (map fst D'')"
      "d \<notin> fst ` set D''" "\<forall>s \<in> snd ` set D''. d \<notin> s" by blast
  from resolve_eq [OF assms, of d] again [OF dist abs] D''(1) again [OF D''(2,3,4)]
  show ?thesis by blast
qed

text \<open>
  The theorem of C6 at the dict \<open>{0: {1, 2}, 2: {3}, 3: {0}}\<close>, with \<open>resolve(2)\<close> and
  \<open>resolve(1)\<close> in between.
\<close>

theorem resolve_twice_witness:
  "\<exists>F D' D''. resolve 0 [(0::nat, {1::nat, 2}), (2, {3}), (3, {0})] = Inr (F, D') \<and>
      resolve 0 D' = Inr ({}, D') \<and>
      run_calls (map Resolve [2, 1]) D' = Inr D'' \<and> resolve 0 D'' = Inr ({}, D'')"
proof -
  have h: "distinct (map fst [(0::nat, {1::nat, 2}), (2, {3}), (3, {0})])" by simp
  from resolve_twice [OF h] show ?thesis .
qed

section \<open>Resolving two unrelated dependencies\<close>

lemma remaining_commute: "remaining d1 (remaining d2 D) = remaining d2 (remaining d1 D)"
proof -
  have "remaining a (remaining b D) =
        map (\<lambda>(k, s). (k, s - {b} - {a}))
          (filter (\<lambda>(k, s). k \<noteq> a \<and> k \<noteq> b \<and> s \<noteq> {b} \<and> s - {b} \<noteq> {a}) D)" for a b
    unfolding remaining_def filter_map filter_filter map_map
    by (rule arg_cong2 [where f = map]) (auto intro!: filter_cong)
  then have "remaining d1 (remaining d2 D) =
        map (\<lambda>(k, s). (k, s - {d2} - {d1}))
          (filter (\<lambda>(k, s). k \<noteq> d1 \<and> k \<noteq> d2 \<and> s \<noteq> {d2} \<and> s - {d2} \<noteq> {d1}) D)"
    and "remaining d2 (remaining d1 D) =
        map (\<lambda>(k, s). (k, s - {d1} - {d2}))
          (filter (\<lambda>(k, s). k \<noteq> d2 \<and> k \<noteq> d1 \<and> s \<noteq> {d1} \<and> s - {d1} \<noteq> {d2}) D)"
    by blast+
  moreover have "(\<lambda>(k::'a, s::'a set). (k, s - {d2} - {d1})) = (\<lambda>(k, s). (k, s - {d1} - {d2}))"
    by (auto simp: fun_eq_iff)
  moreover have "filter (\<lambda>(k, s). k \<noteq> d1 \<and> k \<noteq> d2 \<and> s \<noteq> {d2} \<and> s - {d2} \<noteq> {d1}) D
     = filter (\<lambda>(k, s). k \<noteq> d2 \<and> k \<noteq> d1 \<and> s \<noteq> {d1} \<and> s - {d1} \<noteq> {d2}) D"
    by (rule filter_cong) auto
  ultimately show ?thesis by simp
qed

lemma dict_get_edges: "distinct (map fst D) \<Longrightarrow> dict_get D d {} = {t. (d, t) \<in> edges D}"
proof (cases "map_of D d")
  case None
  then have "d \<notin> fst ` set D" by (simp add: map_of_eq_None_iff)
  then have "{t. (d, t) \<in> edges D} = {}" unfolding edges_def by force
  with None show ?thesis by (simp add: dict_get_def)
next
  case (Some s)
  assume dist: "distinct (map fst D)"
  from Some have mem: "(d, s) \<in> set D" by (rule map_of_SomeD)
  have "{t. (d, t) \<in> edges D} = s"
  proof (intro set_eqI iffI)
    fix t assume "t \<in> {t. (d, t) \<in> edges D}"
    then obtain s' where "(d, s') \<in> set D" "t \<in> s'" unfolding edges_def by blast
    with mem dist show "t \<in> s" by (metis eq_key_imp_eq_value)
  next
    fix t assume "t \<in> s"
    with mem show "t \<in> {t. (d, t) \<in> edges D}" unfolding edges_def by blast
  qed
  with Some show ?thesis by (simp add: dict_get_def)
qed

lemma freed_edges:
  assumes "distinct (map fst D)"
  shows "freed d D = {t. (d, t) \<in> edges D \<and> t \<noteq> d \<and> (\<forall>k. (k, t) \<in> edges D \<longrightarrow> k = d)}"
proof -
  have "(\<forall>(k, s) \<in> set D. k \<noteq> d \<longrightarrow> t \<notin> s) \<longleftrightarrow> (\<forall>k. (k, t) \<in> edges D \<longrightarrow> k = d)" for t
    unfolding edges_def by blast
  then show ?thesis
    unfolding freed_def dict_get_edges [OF assms] by blast
qed

text \<open>
  C8: when neither of \<open>d1\<close>, \<open>d2\<close> is registered as a dependant of the other, resolving
  them in either order frees the same nodes in total and leaves the same dict.
\<close>

theorem resolve_unrelated_commute:
  assumes "distinct (map fst D)"
    and "d2 \<notin> dict_get D d1 {}" and "d1 \<notin> dict_get D d2 {}"
  shows "\<exists>F1 D1 F2 D12 G2 E2 G1 E21.
           resolve d1 D = Inr (F1, D1) \<and> resolve d2 D1 = Inr (F2, D12) \<and>
           resolve d2 D = Inr (G2, E2) \<and> resolve d1 E2 = Inr (G1, E21) \<and>
           F1 \<union> F2 = G2 \<union> G1 \<and> D12 = E21"
proof -
  have r1: "resolve d1 D = Inr (freed d1 D, remaining d1 D)"
    and r2: "resolve d2 D = Inr (freed d2 D, remaining d2 D)"
    using assms(1) by (rule resolve_eq)+
  have r12: "resolve d2 (remaining d1 D) = Inr (freed d2 (remaining d1 D), remaining d2 (remaining d1 D))"
    and r21: "resolve d1 (remaining d2 D) = Inr (freed d1 (remaining d2 D), remaining d1 (remaining d2 D))"
    using distinct_remaining [OF assms(1)] by (rule resolve_eq)+
  have n12: "(d1, d2) \<notin> edges D" and n21: "(d2, d1) \<notin> edges D"
    using assms(2,3) unfolding dict_get_edges [OF assms(1)] by simp_all
  have un: "freed d1 D \<union> freed d2 (remaining d1 D) = freed d2 D \<union> freed d1 (remaining d2 D)"
    unfolding freed_edges [OF assms(1)] freed_edges [OF distinct_remaining [OF assms(1)]]
      edges_remaining
    using n12 n21 by blast
  from r1 r2 r12 r21 un remaining_commute [of d2 d1 D] show ?thesis by simp
qed

text \<open>The theorem of C8 at the dict \<open>{0: {2, 3}, 1: {3, 4}, 5: {2}}\<close>.\<close>

theorem resolve_unrelated_commute_witness:
  "distinct (map fst [(0::nat, {2::nat, 3}), (1, {3, 4}), (5, {2})]) \<and>
   1 \<notin> dict_get [(0::nat, {2::nat, 3}), (1, {3, 4}), (5, {2})] 0 {} \<and>
   0 \<notin> dict_get [(0::nat, {2::nat, 3}), (1, {3, 4}), (5, {2})] 1 {} \<and>
   (\<exists>F1 D1 F2 D12 G2 E2 G1 E21.
      resolve 0 [(0::nat, {2::nat, 3}), (1, {3, 4}), (5, {2})] = Inr (F1, D1) \<and>
      resolve 1 D1 = Inr (F2, D12) \<and>
      resolve 1 [(0::nat, {2::nat, 3}), (1, {3, 4}), (5, {2})] = Inr (G2, E2) \<and>
      resolve 0 E2 = Inr (G1, E21) \<and>
      F1 \<union> F2 = G2 \<union> G1 \<and> D12 = E21)"
proof -
  have h1: "distinct (map fst [(0::nat, {2::nat, 3}), (1, {3, 4}), (5, {2})])" by simp
  have h2: "1 \<notin> dict_get [(0::nat, {2::nat, 3}), (1, {3, 4}), (5, {2})] 0 {}"
    by (simp add: dict_get_def)
  have h3: "0 \<notin> dict_get [(0::nat, {2::nat, 3}), (1, {3, 4}), (5, {2})] 1 {}"
    by (simp add: dict_get_def)
  from resolve_unrelated_commute [OF h1 h2 h3] h1 h2 h3 show ?thesis by blast
qed

section \<open>Sequences of calls\<close>

lemma resolved_iff_no_edges: "tracker_inv D \<Longrightarrow> all_dependencies_resolved D \<longleftrightarrow> edges D = {}"
proof -
  assume inv: "tracker_inv D"
  have "all_dependencies_resolved D \<longleftrightarrow> fst ` set D = {}"
    by (simp add: all_dependencies_resolved_def)
  also have "\<dots> \<longleftrightarrow> fst ` edges D = {}" using keys_edges [OF inv] by simp
  finally show ?thesis by simp
qed

lemma run_calls_init:
  "\<exists>D. run_calls cs init = Inr D \<and> tracker_inv D \<and> edges D = unresolved cs"
proof -
  have "edges (init :: 'a tracker) = {}" by (simp add: edges_def init_def)
  with run_calls_inv [OF inv_init, of cs] show ?thesis by simp
qed

text \<open>
  C3 (amended): \<open>all_dependencies_resolved\<close> holds exactly when the dict has no key; it holds
  on a fresh tracker and fails right after any \<open>add\<close>; and after a sequence of calls on a
  fresh tracker it holds exactly when every registered pair \<open>(a, b)\<close> has been followed
  by a \<open>resolve\<close> of \<open>a\<close> or of \<open>b\<close>.
\<close>

theorem all_dependencies_resolved_iff:
  "(all_dependencies_resolved D \<longleftrightarrow> fst ` set D = {}) \<and>
   all_dependencies_resolved (init :: 'a tracker) \<and>
   (\<exists>D'. add d t D = Inr D' \<and> \<not> all_dependencies_resolved D') \<and>
   (\<exists>D'. run_calls cs init = Inr D' \<and>
      (all_dependencies_resolved D' \<longleftrightarrow>
         (\<forall>pre a b post. cs = pre @ Add a b # post \<longrightarrow>
             Resolve a \<in> set post \<or> Resolve b \<in> set post)))"
proof (intro conjI)
  show "all_dependencies_resolved D \<longleftrightarrow> fst ` set D = {}"
    by (simp add: all_dependencies_resolved_def)
  show "all_dependencies_resolved (init :: 'a tracker)"
    by (simp add: all_dependencies_resolved_def init_def)
  have "d \<in> fst ` set (AList.update d (insert t (dict_get D d {})) D)"
    by (simp add: dom_update)
  then have "\<not> all_dependencies_resolved (AList.update d (insert t (dict_get D d {})) D)"
    by (auto simp: all_dependencies_resolved_def)
  then show "\<exists>D'. add d t D = Inr D' \<and> \<not> all_dependencies_resolved D'"
    by (simp add: add_result)
  from run_calls_init [of cs] obtain D' where
    D': "run_calls cs init = Inr D'" "tracker_inv D'" "edges D' = unresolved cs" by blast
  have "all_dependencies_resolved D' \<longleftrightarrow> unresolved cs = {}"
    using resolved_iff_no_edges [OF D'(2)] D'(3) by simp
  also have "\<dots> \<longleftrightarrow> (\<forall>pre a b post. cs = pre @ Add a b # post \<longrightarrow>
             Resolve a \<in> set post \<or> Resolve b \<in> set post)"
    unfolding unresolved_def by blast
  finally show "\<exists>D'. run_calls cs init = Inr D' \<and>
      (all_dependencies_resolved D' \<longleftrightarrow>
         (\<forall>pre a b post. cs = pre @ Add a b # post \<longrightarrow>
             Resolve a \<in> set post \<or> Resolve b \<in> set post))"
    using D'(1) by blast
qed

text \<open>
  The theorem of C3 at the dict \<open>{0: {1}}\<close>, the pair \<open>(0, 1)\<close> and the calls
  \<open>add(0, 1)\<close>, \<open>resolve(0)\<close>.
\<close>

theorem all_dependencies_resolved_iff_witness:
  "(all_dependencies_resolved [(0::nat, {1::nat})] \<longleftrightarrow> fst ` set [(0::nat, {1::nat})] = {}) \<and>
   all_dependencies_resolved (init :: nat tracker) \<and>
   (\<exists>D'. add (0::nat) 1 [(0::nat, {1::nat})] = Inr D' \<and> \<not> all_dependencies_resolved D') \<and>
   (\<exists>D'. run_calls [Add (0::nat) 1, Resolve 0] init = Inr D' \<and>
      (all_dependencies_resolved D' \<longleftrightarrow>
         (\<forall>pre a b post. [Add (0::nat) 1, Resolve 0] = pre @ Add a b # post \<longrightarrow>
             Resolve a \<in> set post \<or> Resolve b \<in> set post)))"
  by (rule all_dependencies_resolved_iff)

text \<open>
  C3 as stated fails: after \<open>add(0, 1)\<close> and \<open>resolve(1)\<close> the dict is empty, although the
  registered dependency \<open>0\<close> was never passed to \<open>resolve\<close>.
\<close>

theorem resolved_without_resolve_counterexample:
  "run_calls [Add (0::nat) 1, Resolve 1] init = Inr [] \<and>
   all_dependencies_resolved ([] :: nat tracker) \<and>
   Resolve (0::nat) \<notin> set [Add (0::nat) 1, Resolve 1]"
  by (simp add: init_def add_result resolve_eq freed_def remaining_def dict_get_def
      all_dependencies_resolved_def)

text \<open>
  C5 (amended): when \<open>resolve x\<close>, called after the calls \<open>pre\<close> on a fresh tracker, returns
  \<open>t\<close>, every pair \<open>(d, t)\<close> registered in \<open>pre\<close> has \<open>d = x\<close> or was followed by a
  \<open>resolve\<close> of \<open>d\<close> or of \<open>t\<close> itself. The calls never raise.
\<close>

theorem freed_only_after_dependencies:
  "\<exists>D F D'. run_calls pre init = Inr D \<and> resolve x D = Inr (F, D') \<and>
     (\<forall>t d p1 p2. t \<in> F \<and> pre = p1 @ Add d t # p2 \<longrightarrow>
        d = x \<or> Resolve d \<in> set p2 \<or> Resolve t \<in> set p2)"
proof -
  from run_calls_init [of pre] obtain D where
    D: "run_calls pre init = Inr D" "tracker_inv D" "edges D = unresolved pre" by blast
  from D(2) have dist: "distinct (map fst D)" by (simp add: tracker_inv_def)
  have "d = x \<or> Resolve d \<in> set p2 \<or> Resolve t \<in> set p2"
    if "t \<in> freed x D" "pre = p1 @ Add d t # p2" for t d p1 p2
  proof (rule ccontr)
    assume "\<not> (d = x \<or> Resolve d \<in> set p2 \<or> Resolve t \<in> set p2)"
    with that(2) have "(d, t) \<in> unresolved pre" "d \<noteq> x"
      unfolding unresolved_def by blast+
    with D(3) that(1) show False
      unfolding freed_edges [OF dist] by blast
  qed
  with D(1) resolve_eq [OF dist, of x] show ?thesis by blast
qed

text \<open>
  The theorem of C5 at the calls \<open>add(0, 1)\<close>, \<open>add(2, 1)\<close>, \<open>resolve(0)\<close> followed by
  \<open>resolve(2)\<close>.
\<close>

theorem freed_only_after_dependencies_witness:
  "\<exists>D F D'. run_calls [Add (0::nat) 1, Add 2 1, Resolve 0] init = Inr D \<and>
     resolve 2 D = Inr (F, D') \<and>
     (\<forall>t d p1 p2. t \<in> F \<and> [Add (0::nat) 1, Add 2 1, Resolve 0] = p1 @ Add d t # p2 \<longrightarrow>
        d = 2 \<or> Resolve d \<in> set p2 \<or> Resolve t \<in> set p2)"
  by (rule freed_only_after_dependencies)

text \<open>
  C5 as stated fails: after \<open>add(0, 1)\<close>, \<open>resolve(1)\<close>, \<open>add(2, 1)\<close> the call \<open>resolve(2)\<close>
  returns \<open>1\<close>, although its registered dependency \<open>0\<close> was never passed to \<open>resolve\<close>.
\<close>

theorem freed_after_own_resolve_counterexample:
  "run_calls [Add (0::nat) 1, Resolve 1, Add 2 1] init = Inr [(2, {1})] \<and>
   resolve 2 [(2::nat, {1::nat})] = Inr ({1}, []) \<and>
   Resolve (0::nat) \<notin> set [Add (0::nat) 1, Resolve 1, Add 2 1, Resolve 2]"
  by (simp add: init_def add_result resolve_eq freed_def remaining_def dict_get_def)

text \<open>
  C10 (amended): when \<open>add(d, d)\<close> registers a self-loop on a tracker in which \<open>d\<close> does not
  occur, \<open>resolve d\<close> returns the empty set and leaves the tracker as it was before the
  \<open>add\<close>; \<open>all_dependencies_resolved\<close> then holds exactly when there was no other entry.
\<close>

theorem self_loop_resolve:
  assumes "distinct (map fst D)" and "d \<notin> fst ` set D" and "\<forall>s \<in> snd ` set D. d \<notin> s"
  shows "\<exists>D1 D2. add d d D = Inr D1 \<and> resolve d D1 = Inr ({}, D2) \<and> D2 = D \<and>
           (all_dependencies_resolved D2 \<longleftrightarrow> D = [])"
proof -
  have get: "dict_get D d {} = {}"
    using assms(2) by (simp add: dict_get_def map_of_eq_None_iff [THEN iffD2])
  have upd: "AList.update d {d} D = D @ [(d, {d})]"
    using assms(2) by (induction D) auto
  have dist: "distinct (map fst (D @ [(d, {d})]))"
    using assms(1,2) by auto
  have rem: "remaining d (D @ [(d, {d})]) = D"
  proof -
    have "filter (\<lambda>(k, s). k \<noteq> d \<and> s \<noteq> {d}) D = D"
      using assms(2,3) by (intro filter_True) force
    moreover have "map (\<lambda>(k, s). (k, s - {d})) D = D"
      using assms(3) by (intro map_idI) force
    ultimately show ?thesis by (simp add: remaining_def)
  qed
  have "map_of D d = None"
    using assms(2) by (simp add: map_of_eq_None_iff)
  then have "dict_get (D @ [(d, {d})]) d {} = {d}"
    by (simp add: dict_get_def map_add_def)
  then have fr: "freed d (D @ [(d, {d})]) = {}"
    unfolding freed_def by simp
  have "resolve d (D @ [(d, {d})]) = Inr ({}, D)"
    using resolve_eq [OF dist, of d] rem fr by simp
  moreover have "add d d D = Inr (D @ [(d, {d})])"
    by (simp add: add_result get upd)
  ultimately show ?thesis
    by (simp add: all_dependencies_resolved_def)
qed

text \<open>The theorem of C10 at the dict \<open>{5: {6}}\<close> and \<open>d = 0\<close>.\<close>

theorem self_loop_resolve_witness:
  "\<exists>D1 D2. add 0 0 [(5::nat, {6::nat})] = Inr D1 \<and> resolve 0 D1 = Inr ({}, D2) \<and>
     D2 = [(5::nat, {6::nat})] \<and>
     (all_dependencies_resolved D2 \<longleftrightarrow> [(5::nat, {6::nat})] = [])"
proof -
  have h1: "distinct (map fst [(5::nat, {6::nat})])" by simp
  have h2: "0 \<notin> fst ` set [(5::nat, {6::nat})]" by simp
  have h3: "\<forall>s \<in> snd ` set [(5::nat, {6::nat})]. 0 \<notin> s" by simp
  from self_loop_resolve [OF h1 h2 h3] show ?thesis .
qed

text \<open>
  C10 as stated fails when the dict has another entry: in \<open>{5: {6}, 0: {0}}\<close> the only
  occurrence of \<open>0\<close> is its self-loop, \<open>resolve 0\<close> returns the empty set, and
  \<open>all_dependencies_resolved\<close> is false afterwards.
\<close>

theorem self_loop_other_entries_counterexample:
  "add 0 0 [(5::nat, {6::nat})] = Inr [(5, {6}), (0, {0})] \<and>
   resolve 0 [(5::nat, {6::nat}), (0, {0})] = Inr ({}, [(5, {6})]) \<and>
   \<not> all_dependencies_resolved [(5::nat, {6::nat})]"
  by (simp add: add_result resolve_eq freed_def remaining_def dict_get_def
      all_dependencies_resolved_def)

section \<open>The cycle check\<close>

lemma closed_rtrancl:
  assumes "\<forall>n \<in> vis. set (g n) \<subseteq> vis" and "(n, m) \<in> (succ_edges g)\<^sup>*" and "n \<in> vis"
  shows "m \<in> vis"
  using assms(2,3)
proof (induction rule: rtrancl_induct)
  case base
  then show ?case .
next
  case (step y z)
  then have "y \<in> vis" by simp
  with assms(1) step(2) show ?case by (auto simp: succ_edges_def)
qed

lemma visit_all_post:
  assumes "visit_inv g path vis"
    and "\<And>x v. x \<in> set xs \<Longrightarrow> visit_inv g path v \<Longrightarrow> visit_post g path v {x} (f v x)"
  shows "visit_post g path vis (set xs) (visit_all f vis xs)"
  using assms
proof (induction xs arbitrary: vis)
  case Nil
  then show ?case by (simp add: visit_post_def)
next
  case (Cons x xs)
  from Cons.prems(2) [OF _ Cons.prems(1), of x]
  have px: "visit_post g path vis {x} (f vis x)" by simp
  then obtain r where r: "f vis x = Some r" unfolding visit_post_def by blast
  show ?case
  proof (cases r)
    case (Inl e)
    with px r show ?thesis by (simp add: visit_post_def)
  next
    case (Inr v1)
    with px r have v1: "visit_inv g path v1" "vis \<subseteq> v1" "x \<in> v1"
      by (simp_all add: visit_post_def)
    have "visit_post g path v1 (set xs) (visit_all f v1 xs)"
      by (rule Cons.IH [OF v1(1)]) (simp add: Cons.prems(2))
    then obtain r2 where r2: "visit_all f v1 xs = Some r2"
      and c2: "case r2 of
           Inl e \<Rightarrow> \<exists>c. e = CircularDependencyError c \<and> (c, c) \<in> (succ_edges g)\<^sup>+
         | Inr vis' \<Rightarrow> visit_inv g path vis' \<and> v1 \<subseteq> vis' \<and> set xs \<subseteq> vis'"
      unfolding visit_post_def by blast
    have "visit_all f vis (x # xs) = Some r2" using r Inr r2 by simp
    moreover have "case r2 of
           Inl e \<Rightarrow> \<exists>c. e = CircularDependencyError c \<and> (c, c) \<in> (succ_edges g)\<^sup>+
         | Inr vis' \<Rightarrow> visit_inv g path vis' \<and> vis \<subseteq> vis' \<and> set (x # xs) \<subseteq> vis'"
      using c2 v1(2,3) by (cases r2) auto
    ultimately show ?thesis unfolding visit_post_def by blast
  qed
qed

lemma visit_correct:
  assumes fin: "finite V" and sup: "\<And>n. g n \<noteq> [] \<Longrightarrow> n \<in> V"
  shows "visit_inv g path vis \<Longrightarrow> \<forall>p \<in> path. (p, node) \<in> (succ_edges g)\<^sup>+ \<Longrightarrow>
         visit_post g path vis {node} (visit g path vis node)"
proof (induction "card (V - path)" arbitrary: path vis node rule: less_induct)
  case less
  let ?E = "succ_edges g"
  show ?case
  proof (cases "node \<in> path")
    case True
    with less.prems(2) have "(node, node) \<in> ?E\<^sup>+" by blast
    with True show ?thesis
      by (subst visit.simps) (simp add: visit_post_def)
  next
    case notpath: False
    show ?thesis
    proof (cases "node \<in> vis")
      case True
      with notpath less.prems(1) show ?thesis
        by (subst visit.simps) (simp add: visit_post_def)
    next
      case notvis: False
      let ?path = "insert node path"
      have inv': "visit_inv g ?path vis"
        using less.prems(1) notvis by (simp add: visit_inv_def)
      have step: "visit_post g ?path v {x} (visit g ?path v x)"
        if "x \<in> set (g node)" "visit_inv g ?path v" for x v
      proof (rule less.hyps [OF _ that(2)])
        from that(1) have "g node \<noteq> []" by auto
        then have "node \<in> V" by (rule sup)
        with notpath fin show "card (V - ?path) < card (V - path)"
          by (intro psubset_card_mono) auto
        from that(1) have e: "(node, x) \<in> ?E" by (simp add: succ_edges_def)
        show "\<forall>p \<in> ?path. (p, x) \<in> ?E\<^sup>+"
        proof
          fix p assume "p \<in> ?path"
          then consider "p = node" | "p \<in> path" by blast
          then show "(p, x) \<in> ?E\<^sup>+"
          proof cases
            case 1
            with e show ?thesis by blast
          next
            case 2
            with less.prems(2) have "(p, node) \<in> ?E\<^sup>+" by blast
            then show ?thesis using e by (rule trancl_into_trancl)
          qed
        qed
      qed
      have "visit_post g ?path vis (set (g node))
              (visit_all (visit g ?path) vis (g node))"
        using inv' step by (rule visit_all_post)
      then obtain r where r: "visit_all (visit g ?path) vis (g node) = Some r"
        and c: "case r of
           Inl e \<Rightarrow> \<exists>c. e = CircularDependencyError c \<and> (c, c) \<in> ?E\<^sup>+
         | Inr vis' \<Rightarrow> visit_inv g ?path vis' \<and> vis \<subseteq> vis' \<and> set (g node) \<subseteq> vis'"
        unfolding visit_post_def by blast
      show ?thesis
      proof (cases r)
        case (Inl e)
        with r c notpath notvis show ?thesis
          by (subst visit.simps) (simp add: visit_post_def)
      next
        case (Inr v1)
        with c have v1: "visit_inv g ?path v1" "vis \<subseteq> v1" "set (g node) \<subseteq> v1" by simp_all
        from v1(1) have closed: "\<forall>n \<in> v1. set (g n) \<subseteq> v1" and "node \<notin> v1"
          by (auto simp: visit_inv_def)
        have nocyc: "(node, node) \<notin> ?E\<^sup>+"
        proof
          assume "(node, node) \<in> ?E\<^sup>+"
          then obtain m where "(node, m) \<in> ?E" "(m, node) \<in> ?E\<^sup>*"
            by (meson tranclD)
          then have "m \<in> v1" using v1(3) by (auto simp: succ_edges_def)
          with closed \<open>(m, node) \<in> ?E\<^sup>*\<close> have "node \<in> v1" by (rule closed_rtrancl)
          with \<open>node \<notin> v1\<close> show False by contradiction
        qed
        have "visit_inv g path (insert node v1)"
          using v1 notpath nocyc unfolding visit_inv_def by auto
        with Inr r v1(2) notpath notvis show ?thesis
          by (subst visit.simps) (auto simp: visit_post_def)
      qed
    qed
  qed
qed

lemma traverse_graph_correct:
  assumes fin: "finite V" and sup: "\<And>n. g n \<noteq> [] \<Longrightarrow> n \<in> V"
    and roots: "\<And>n. g n \<noteq> [] \<Longrightarrow> n \<in> set start_nodes"
  shows "(acyclic (succ_edges g) \<longrightarrow> traverse_graph start_nodes g = Some (Inr ())) \<and>
         (\<not> acyclic (succ_edges g) \<longrightarrow>
            (\<exists>c. traverse_graph start_nodes g = Some (Inl (CircularDependencyError c)) \<and>
                 (c, c) \<in> (succ_edges g)\<^sup>+))"
proof -
  let ?E = "succ_edges g"
  have inv0: "visit_inv g {} {}" by (simp add: visit_inv_def)
  have "visit_post g {} {} (set start_nodes) (visit_all (visit g {}) {} start_nodes)"
    using inv0
  proof (rule visit_all_post)
    fix x v assume "visit_inv g {} v"
    then show "visit_post g {} v {x} (visit g {} v x)"
      using visit_correct [of V g "{}" v x] fin sup by simp
  qed
  then obtain r where r: "visit_all (visit g {}) {} start_nodes = Some r"
    and c: "case r of
           Inl e \<Rightarrow> \<exists>c. e = CircularDependencyError c \<and> (c, c) \<in> ?E\<^sup>+
         | Inr vis' \<Rightarrow> visit_inv g {} vis' \<and> {} \<subseteq> vis' \<and> set start_nodes \<subseteq> vis'"
    unfolding visit_post_def by blast
  show ?thesis
  proof (cases r)
    case (Inl e)
    with c obtain n where n: "e = CircularDependencyError n" "(n, n) \<in> ?E\<^sup>+" by auto
    then have "\<not> acyclic ?E" by (auto simp: acyclic_def)
    moreover have "traverse_graph start_nodes g = Some (Inl (CircularDependencyError n))"
      using r Inl n(1) by (simp add: traverse_graph_def)
    ultimately show ?thesis using n(2) by blast
  next
    case (Inr vis)
    with c have vis: "visit_inv g {} vis" "set start_nodes \<subseteq> vis" by simp_all
    have "(n, n) \<notin> ?E\<^sup>+" for n
    proof
      assume cyc: "(n, n) \<in> ?E\<^sup>+"
      then obtain m where "(n, m) \<in> ?E" by (meson tranclD)
      then have "g n \<noteq> []" by (auto simp: succ_edges_def)
      then have "n \<in> vis" using roots vis(2) by blast
      with vis(1) cyc show False by (simp add: visit_inv_def)
    qed
    then have "acyclic ?E" by (simp add: acyclic_def)
    moreover have "traverse_graph start_nodes g = Some (Inr ())"
      using r Inr by (simp add: traverse_graph_def)
    ultimately show ?thesis by simp
  qed
qed

lemma check_circular_dependencies_correct:
  assumes dist: "distinct (map fst D)"
    and iter: "\<And>s. s \<in> insert {} (snd ` set D) \<Longrightarrow> set (iter s) = s"
  shows "(acyclic (edges D) \<longrightarrow> check_circular_dependencies iter D = Some (Inr ())) \<and>
         (\<not> acyclic (edges D) \<longrightarrow>
            (\<exists>c. check_circular_dependencies iter D = Some (Inl (CircularDependencyError c)) \<and>
                 (c, c) \<in> (edges D)\<^sup>+))"
proof -
  let ?g = "\<lambda>node. iter (dict_get D node {})"
  have mem: "dict_get D n {} \<in> insert {} (snd ` set D)" for n
  proof (cases "map_of D n")
    case None
    then show ?thesis by (simp add: dict_get_def)
  next
    case (Some s)
    then have "(n, s) \<in> set D" by (rule map_of_SomeD)
    then have "s \<in> snd ` set D" by force
    with Some show ?thesis by (simp add: dict_get_def)
  qed
  have g: "set (?g n) = {t. (n, t) \<in> edges D}" for n
    using iter [OF mem [of n]] dict_get_edges [OF dist, of n] by simp
  have E: "succ_edges ?g = edges D"
    unfolding succ_edges_def g by simp
  have keys: "n \<in> set (map fst D)" if "?g n \<noteq> []" for n
  proof -
    from that have "set (?g n) \<noteq> {}" by simp
    then obtain t where "(n, t) \<in> edges D" unfolding g by blast
    then show ?thesis unfolding edges_def by force
  qed
  have "finite (set (map fst D))" by simp
  from traverse_graph_correct [of "set (map fst D)" ?g "map fst D", OF this keys keys]
  show ?thesis unfolding check_circular_dependencies_def E by simp
qed

lemma unresolved_adds: "unresolved (map (\<lambda>(d, t). Add d t) ps) = set ps"
proof (induction ps)
  case Nil
  show ?case by (simp add: unresolved_def)
next
  case (Cons p ps)
  obtain a b where p: "p = (a, b)" by (cases p)
  have "Resolve x \<notin> set (map (\<lambda>(d, t). Add d t) ps)" for x :: 'a
    by auto
  then show ?case
    using Cons by (simp add: p unresolved_Cons_Add)
qed

text \<open>
  C4: after any sequence of \<open>add\<close> calls on a fresh tracker, \<open>check_circular_dependencies\<close>
  returns, without failure when the registered pairs form a DAG, and with a
  \<open>CircularDependencyError\<close> naming a node that lies on a cycle when they do not.
\<close>

theorem check_circular_dependencies_dag:
  assumes "\<And>s. finite s \<Longrightarrow> set (iter s) = s"
  shows "\<exists>D. run_calls (map (\<lambda>(d, t). Add d t) ps) init = Inr D \<and>
     (acyclic (set ps) \<longrightarrow> check_circular_dependencies iter D = Some (Inr ())) \<and>
     (\<not> acyclic (set ps) \<longrightarrow>
        (\<exists>c. check_circular_dependencies iter D = Some (Inl (CircularDependencyError c)) \<and>
             (c, c) \<in> (set ps)\<^sup>+))"
proof -
  from run_calls_init [of "map (\<lambda>(d, t). Add d t) ps"] obtain D where
    D: "run_calls (map (\<lambda>(d, t). Add d t) ps) init = Inr D" "tracker_inv D"
       "edges D = set ps"
    unfolding unresolved_adds by blast
  from D(2) have dist: "distinct (map fst D)" by (simp add: tracker_inv_def)
  have "set (iter s) = s" if "s \<in> insert {} (snd ` set D)" for s
  proof (rule assms)
    from that consider "s = {}" | k where "(k, s) \<in> set D" by force
    then show "finite s"
    proof cases
      case 1
      then show ?thesis by simp
    next
      case 2
      then have "s \<subseteq> snd ` edges D" unfolding edges_def by force
      then show ?thesis unfolding D(3) by (rule finite_subset) simp
    qed
  qed
  from check_circular_dependencies_correct [OF dist this] D(1) show ?thesis
    unfolding D(3) by blast
qed

text \<open>The theorem of C4 at the calls \<open>add(0, 1)\<close>, \<open>add(1, 0)\<close>, sets iterated in ascending order.\<close>

theorem check_circular_dependencies_dag_witness:
  "\<exists>D. run_calls (map (\<lambda>(d, t). Add d t) [(0::nat, 1::nat), (1, 0)]) init = Inr D \<and>
     (\<exists>c. check_circular_dependencies sorted_list_of_set D
             = Some (Inl (CircularDependencyError c)) \<and>
          (c, c) \<in> (set [(0::nat, 1::nat), (1, 0)])\<^sup>+)"
proof -
  have h: "set (sorted_list_of_set s) = s" if "finite s" for s :: "nat set"
    using that by simp
  have "(0::nat, 0::nat) \<in> (set [(0::nat, 1::nat), (1, 0)])\<^sup>+"
    by (rule trancl_trans [of _ 1]) auto
  then have c: "\<not> acyclic (set [(0::nat, 1::nat), (1, 0)])"
    unfolding acyclic_def by blast
  from check_circular_dependencies_dag [of sorted_list_of_set "[(0::nat, 1::nat), (1, 0)]", OF h] c
  show ?thesis by blast
qed

end
